theory Spec2Isabelle
  imports Main
begin

section \<open>Characters and the string predicates of Python\<close>

text \<open>
  The generator \<^verbatim>\<open>generate_opcode_table.py\<close> reads the text of every table cell and
  classifies its characters with \<^verbatim>\<open>str.isupper\<close>, \<^verbatim>\<open>str.isdigit\<close> and \<^verbatim>\<open>str.islower\<close>,
  and converts one character with \<^verbatim>\<open>int\<close>. A cell text is modelled as a \<^typ>\<open>string\<close>
  whose characters are the code points U+0000 to U+00FF (\<open>of_char c\<close> is the code
  point). On that range the predicates below are the ones of CPython: besides the
  ASCII letters and digits, the accented capitals are upper case, the accented small
  letters and the ordinal indicators are lower case, and the superscripts one, two and
  three are digits for \<^verbatim>\<open>isdigit\<close> although \<^verbatim>\<open>int\<close> rejects them.
\<close>

definition py_isupper :: "char \<Rightarrow> bool" where
  "py_isupper c =
     (let n = (of_char c :: nat)
      in (65 \<le> n \<and> n \<le> 90) \<or> (192 \<le> n \<and> n \<le> 214) \<or> (216 \<le> n \<and> n \<le> 222))"

definition py_islower :: "char \<Rightarrow> bool" where
  "py_islower c =
     (let n = (of_char c :: nat)
      in (97 \<le> n \<and> n \<le> 122) \<or> n = 170 \<or> n = 181 \<or> n = 186
         \<or> (223 \<le> n \<and> n \<le> 246) \<or> (248 \<le> n \<and> n \<le> 255))"

definition py_isdigit :: "char \<Rightarrow> bool" where
  "py_isdigit c =
     (let n = (of_char c :: nat)
      in (48 \<le> n \<and> n \<le> 57) \<or> n = 178 \<or> n = 179 \<or> n = 185)"

definition py_isspace :: "char \<Rightarrow> bool" where
  "py_isspace c =
     (let n = (of_char c :: nat)
      in (9 \<le> n \<and> n \<le> 13) \<or> (28 \<le> n \<and> n \<le> 32) \<or> n = 133 \<or> n = 160)"

text \<open>The decimal digits \<^verbatim>\<open>0\<close> to \<^verbatim>\<open>9\<close>, the only characters \<^verbatim>\<open>int\<close> accepts.\<close>

definition is_decimal :: "char \<Rightarrow> bool" where
  "is_decimal c = (let n = (of_char c :: nat) in 48 \<le> n \<and> n \<le> 57)"

definition digit_val :: "char \<Rightarrow> int" where
  "digit_val c = int (of_char c) - 48"

datatype py_error = ValueError | IndexError

text \<open>
  \<^verbatim>\<open>int(data[i])\<close> on a string of one character: the value of a decimal digit, and
  \<^verbatim>\<open>ValueError\<close> on every other character.
\<close>

definition py_int_char :: "char \<Rightarrow> py_error + int" where
  "py_int_char c = (if is_decimal c then Inr (digit_val c) else Inl ValueError)"

section \<open>Flattening a cell's text\<close>

text \<open>
  \<^verbatim>\<open>data = cell.text.split()\<close> cuts the text at runs of white space and drops empty
  pieces; \<^verbatim>\<open>''.join(data)\<close> glues the pieces together again.
\<close>

fun split_acc :: "string \<Rightarrow> string \<Rightarrow> string list" where
  "split_acc [] w = (if w = [] then [] else [w])"
| "split_acc (c # cs) w =
     (if py_isspace c then (if w = [] then split_acc cs [] else w # split_acc cs [])
      else split_acc cs (w @ [c]))"

definition py_split :: "string \<Rightarrow> string list" where
  "py_split s = split_acc s []"

definition flatten :: "string \<Rightarrow> string" where
  "flatten text = concat (py_split text)"

section \<open>Parsing one cell\<close>

text \<open>
  Both \<^verbatim>\<open>while i < len(data) and data[i].isupper(): i += 1\<close> and the loop for the
  lower-case run advance an index while a predicate holds.
\<close>

function scan_while :: "(char \<Rightarrow> bool) \<Rightarrow> string \<Rightarrow> nat \<Rightarrow> nat" where
  "scan_while p data i =
     (if i < length data \<and> p (data ! i) then scan_while p data (Suc i) else i)"
  by pat_completeness auto
termination
  by (relation "measure (\<lambda>(p, data, i). length data - i)") auto

declare scan_while.simps [simp del]

text \<open>The slice \<^verbatim>\<open>data[start:i]\<close> for non-negative indices.\<close>

definition py_slice :: "'a list \<Rightarrow> nat \<Rightarrow> nat \<Rightarrow> 'a list" where
  "py_slice data start i = take (i - start) (drop start data)"

text \<open>
  The \<^verbatim>\<open>if\<close>/\<^verbatim>\<open>elif\<close> chain that rewrites \<^verbatim>\<open>addr_mode\<close>. It has no final \<^verbatim>\<open>else\<close>: a
  token that matches no branch keeps its value.
\<close>

definition resolve :: "string \<Rightarrow> string" where
  "resolve addr_mode =
     (if addr_mode = ''abs'' then ''AM::ABS''
      else if addr_mode = ''abx'' then ''AM::ABX''
      else if addr_mode = ''aby'' then ''AM::ABY''
      else if addr_mode = ''imm'' then ''AM::IMM''
      else if addr_mode = ''ind'' then ''AM::IND''
      else if addr_mode = ''izx'' then ''AM::INX''
      else if addr_mode = ''izy'' then ''AM::INY''
      else if addr_mode = ''zp'' then ''AM::ZPG''
      else if addr_mode = ''zpx'' then ''AM::ZPX''
      else if addr_mode = ''zpy'' then ''AM::ZPY''
      else if addr_mode = ''rel'' then ''AM::REL''
      else if addr_mode = '''' then ''AM::IMP''
      else addr_mode)"

text \<open>
  The three values every branch hands to its format string: the mnemonic, the cycle
  count and the text of the addressing mode.
\<close>

record instr =
  opcode :: string
  cycles :: int
  addr_mode :: string

definition parse_cell :: "string \<Rightarrow> py_error + instr" where
  "parse_cell data =
     (let i = scan_while py_isupper data 0;
          opc = py_slice data 0 i
      in if i \<ge> length data then
           Inr \<lparr>opcode = opc, cycles = 0, addr_mode = ''AM::IMP''\<rparr>
         else if py_isdigit (data ! i) then
           (case py_int_char (data ! i) of
              Inl e \<Rightarrow> Inl e
            | Inr n \<Rightarrow> Inr \<lparr>opcode = opc, cycles = n, addr_mode = ''AM::IMP''\<rparr>)
         else
           (let start = i;
                j = scan_while py_islower data i;
                am = resolve (py_slice data start j)
            in if j < length data then
                 (case py_int_char (data ! j) of
                    Inl e \<Rightarrow> Inl e
                  | Inr n \<Rightarrow> Inr \<lparr>opcode = opc, cycles = n, addr_mode = am\<rparr>)
               else Inr \<lparr>opcode = opc, cycles = 0, addr_mode = am\<rparr>))"

section \<open>Emitting the table\<close>

text \<open>\<^verbatim>\<open>str\<close> of an integer, as the format strings insert the cycle count.\<close>

fun str_nat :: "nat \<Rightarrow> string" where
  "str_nat n =
     (if n < 10 then [char_of (48 + n)]
      else str_nat (n div 10) @ [char_of (48 + n mod 10)])"

declare str_nat.simps [simp del]

definition py_str :: "int \<Rightarrow> string" where
  "py_str k = (if k < 0 then CHR ''-'' # str_nat (nat (- k)) else str_nat (nat k))"

text \<open>The entry \<^verbatim>\<open>f"I::new(Op::{opcode},{cycles},{addr_mode}),"\<close>.\<close>

definition fmt_instr :: "instr \<Rightarrow> string" where
  "fmt_instr d =
     ''I::new(Op::'' @ opcode d @ '','' @ py_str (cycles d) @ '','' @ addr_mode d @ ''),''"

text \<open>
  The inner loop \<^verbatim>\<open>for cell in row.find_all('td')[1:]\<close>, over the texts of the cells
  that are left after the slice; \<^verbatim>\<open>rowOutput\<close> is the list it appends to. An exception
  of the parser leaves the loop.
\<close>

fun cell_loop :: "string list \<Rightarrow> string list \<Rightarrow> py_error + string list" where
  "cell_loop [] rowOutput = Inr rowOutput"
| "cell_loop (cell # cells) rowOutput =
     (case parse_cell (flatten cell) of
        Inl e \<Rightarrow> Inl e
      | Inr d \<Rightarrow> cell_loop cells (rowOutput @ [fmt_instr d]))"

text \<open>
  One pass of the outer loop on the cell texts of a row: \<^verbatim>\<open>rowOutput\<close> starts as
  \<^verbatim>\<open>["["]\<close>, the cell at index 0 is skipped, and the line that is printed is
  \<^verbatim>\<open>''.join(rowOutput) + ','\<close> after \<^verbatim>\<open>"]"\<close> has been appended.
\<close>

definition emit_row :: "string list \<Rightarrow> py_error + string" where
  "emit_row cells =
     (case cell_loop (drop 1 cells) [''[''] of
        Inl e \<Rightarrow> Inl e
      | Inr rowOutput \<Rightarrow> Inr (concat (rowOutput @ ['']'']) @ '',''))"

text \<open>
  The outer loop \<^verbatim>\<open>for rowNum in range(1,17)\<close>. The input \<open>rows\<close> holds, for every
  \<^verbatim>\<open>tr\<close> element in document order, the texts of its \<^verbatim>\<open>td\<close> cells. The state is the
  list of lines printed so far; \<^verbatim>\<open>rows[rowNum]\<close> raises \<^verbatim>\<open>IndexError\<close> past the end. The
  result pairs the lines that reached standard output with the exception that ended
  the run, if any.
\<close>

fun row_loop ::
  "string list list \<Rightarrow> nat list \<Rightarrow> string list \<Rightarrow> string list \<times> py_error option" where
  "row_loop rows [] printed = (printed, None)"
| "row_loop rows (rowNum # rest) printed =
     (if rowNum \<ge> length rows then (printed, Some IndexError)
      else case emit_row (rows ! rowNum) of
             Inl e \<Rightarrow> (printed, Some e)
           | Inr line \<Rightarrow> row_loop rows rest (printed @ [line]))"

definition header :: string where
  "header = ''pub const OPCODES: [[I; 16]; 16] = [''"

definition footer :: string where
  "footer = '']''"

definition main :: "string list list \<Rightarrow> string list \<times> py_error option" where
  "main rows =
     (case row_loop rows [1..<17] [header] of
        (printed, None) \<Rightarrow> (printed @ [footer], None)
      | (printed, Some e) \<Rightarrow> (printed, Some e))"

section \<open>The canonical addressing modes\<close>

datatype AddressingMode =
  Implied | Absolute | AbsoluteX | AbsoluteY | Immediate | Indirect
  | IndexedIndirect | IndirectIndexed | ZeroPage | ZeroPageX | ZeroPageY | Relative

text \<open>The name under which the emitted table refers to each mode.\<close>

fun am_text :: "AddressingMode \<Rightarrow> string" where
  "am_text Implied = ''AM::IMP''"
| "am_text Absolute = ''AM::ABS''"
| "am_text AbsoluteX = ''AM::ABX''"
| "am_text AbsoluteY = ''AM::ABY''"
| "am_text Immediate = ''AM::IMM''"
| "am_text Indirect = ''AM::IND''"
| "am_text IndexedIndirect = ''AM::INX''"
| "am_text IndirectIndexed = ''AM::INY''"
| "am_text ZeroPage = ''AM::ZPG''"
| "am_text ZeroPageX = ''AM::ZPX''"
| "am_text ZeroPageY = ''AM::ZPY''"
| "am_text Relative = ''AM::REL''"

text \<open>The eleven abbreviations of the reference table, each with its mode.\<close>

definition abbreviations :: "(string \<times> AddressingMode) list" where
  "abbreviations =
     [(''abs'', Absolute), (''abx'', AbsoluteX), (''aby'', AbsoluteY),
      (''imm'', Immediate), (''ind'', Indirect), (''izx'', IndexedIndirect),
      (''izy'', IndirectIndexed), (''zp'', ZeroPage), (''zpx'', ZeroPageX),
      (''zpy'', ZeroPageY), (''rel'', Relative)]"

text \<open>
  The number \<^verbatim>\<open>int(D)\<close> that the specification assigns to a whole sequence of decimal
  digits.
\<close>

definition int_of_digits :: "string \<Rightarrow> int" where
  "int_of_digits D = foldl (\<lambda>acc c. 10 * acc + digit_val c) 0 D"

section \<open>Character classes\<close>

lemma upper_not_lower: "py_isupper c \<Longrightarrow> \<not> py_islower c"
  by (auto simp: py_isupper_def py_islower_def Let_def)

lemma upper_not_digit: "py_isupper c \<Longrightarrow> \<not> py_isdigit c"
  by (auto simp: py_isupper_def py_isdigit_def Let_def)

lemma lower_not_digit: "py_islower c \<Longrightarrow> \<not> py_isdigit c"
  by (auto simp: py_islower_def py_isdigit_def Let_def)

lemma decimal_isdigit: "is_decimal c \<Longrightarrow> py_isdigit c"
  by (auto simp: is_decimal_def py_isdigit_def Let_def)

lemma decimal_not_lower: "is_decimal c \<Longrightarrow> \<not> py_islower c"
  by (auto simp: is_decimal_def py_islower_def Let_def)

lemma decimal_not_upper: "is_decimal c \<Longrightarrow> \<not> py_isupper c"
  by (auto simp: is_decimal_def py_isupper_def Let_def)

lemma py_int_char_range: "py_int_char c = Inr n \<Longrightarrow> 0 \<le> n \<and> n \<le> 9"
  by (auto simp: py_int_char_def is_decimal_def digit_val_def Let_def split: if_splits)

lemma py_int_char_cases:
  "py_int_char c = (if is_decimal c then Inr (digit_val c) else Inl ValueError)"
  by (simp add: py_int_char_def)

section \<open>The scanning loops as runs\<close>

lemma scan_while_takeWhile:
  "i \<le> length data \<Longrightarrow> scan_while p data i = i + length (takeWhile p (drop i data))"
proof (induction p data i rule: scan_while.induct)
  case (1 p data i)
  show ?case
  proof (cases "i < length data \<and> p (data ! i)")
    case True
    then have d: "drop i data = data ! i # drop (Suc i) data"
      by (simp add: Cons_nth_drop_Suc)
    from True have "scan_while p data i = scan_while p data (Suc i)"
      by (subst scan_while.simps) simp
    also have "\<dots> = Suc i + length (takeWhile p (drop (Suc i) data))"
      using "1.IH" True by simp
    finally show ?thesis using True d by simp
  next
    case False
    then have s: "scan_while p data i = i"
      by (subst scan_while.simps) auto
    show ?thesis
    proof (cases "i < length data")
      case True
      with False have "\<not> p (data ! i)" by simp
      moreover from True have "drop i data = data ! i # drop (Suc i) data"
        by (simp add: Cons_nth_drop_Suc)
      ultimately show ?thesis using s by simp
    next
      case False
      with "1.prems" show ?thesis using s by simp
    qed
  qed
qed

lemma drop_length_takeWhile: "drop (length (takeWhile p xs)) xs = dropWhile p xs"
  by (induction xs) auto

lemma take_length_takeWhile: "take (length (takeWhile p xs)) xs = takeWhile p xs"
  by (induction xs) auto

lemma nth_length_takeWhile_hd:
  "dropWhile p xs \<noteq> [] \<Longrightarrow> xs ! length (takeWhile p xs) = hd (dropWhile p xs)"
  by (induction xs) auto

lemma length_takeWhile_ge: "(length xs \<le> length (takeWhile p xs)) = (dropWhile p xs = [])"
  by (induction xs) auto

lemma run_append:
  "\<forall>x\<in>set xs. p x \<Longrightarrow> ys = [] \<or> \<not> p (hd ys) \<Longrightarrow>
     takeWhile p (xs @ ys) = xs \<and> dropWhile p (xs @ ys) = ys"
  by (induction xs) (auto simp: takeWhile_eq_Nil_iff dropWhile_eq_self_iff)

text \<open>
  The index arithmetic of the parser, read as runs: the mnemonic is the longest leading
  run of upper-case characters, the token the longest run of lower-case characters
  after it, and at most one character after that is looked at.
\<close>

lemma parse_cell_runs:
  "parse_cell data =
     (let M = takeWhile py_isupper data;
          rest = dropWhile py_isupper data;
          A = takeWhile py_islower rest;
          R = dropWhile py_islower rest
      in case rest of
           [] \<Rightarrow> Inr \<lparr>opcode = M, cycles = 0, addr_mode = ''AM::IMP''\<rparr>
         | c # _ \<Rightarrow>
             if py_isdigit c then
               (case py_int_char c of
                  Inl e \<Rightarrow> Inl e
                | Inr n \<Rightarrow> Inr \<lparr>opcode = M, cycles = n, addr_mode = ''AM::IMP''\<rparr>)
             else
               (case R of
                  [] \<Rightarrow> Inr \<lparr>opcode = M, cycles = 0, addr_mode = resolve A\<rparr>
                | r # _ \<Rightarrow>
                    (case py_int_char r of
                       Inl e \<Rightarrow> Inl e
                     | Inr n \<Rightarrow> Inr \<lparr>opcode = M, cycles = n, addr_mode = resolve A\<rparr>)))"
proof -
  define i where "i = scan_while py_isupper data 0"
  define rest where "rest = dropWhile py_isupper data"
  define j where "j = scan_while py_islower data i"
  have i: "i = length (takeWhile py_isupper data)"
    unfolding i_def by (simp add: scan_while_takeWhile)
  have ile: "i \<le> length data"
    unfolding i by (simp add: length_takeWhile_le)
  have opc: "py_slice data 0 i = takeWhile py_isupper data"
    unfolding i py_slice_def by (simp add: take_length_takeWhile)
  have dr: "drop i data = rest"
    unfolding i rest_def by (rule drop_length_takeWhile)
  have ge: "(length data \<le> i) = (rest = [])"
    unfolding i rest_def by (rule length_takeWhile_ge)
  have nth: "rest \<noteq> [] \<Longrightarrow> data ! i = hd rest"
    unfolding i rest_def by (rule nth_length_takeWhile_hd)
  have j: "j = i + length (takeWhile py_islower rest)"
    unfolding j_def using ile dr by (simp add: scan_while_takeWhile)
  have tok: "py_slice data i j = takeWhile py_islower rest"
    unfolding py_slice_def j dr by (simp add: take_length_takeWhile)
  have drj: "drop j data = dropWhile py_islower rest"
    unfolding j using dr drop_length_takeWhile [of py_islower rest]
    by (metis add.commute drop_drop)
  have jle: "j \<le> length data"
    unfolding j using dr length_takeWhile_le [of py_islower rest]
    by (metis ile le_add_diff_inverse length_drop nat_add_left_cancel_le)
  have jlt: "(j < length data) = (dropWhile py_islower rest \<noteq> [])"
    using drj jle by (metis drop_eq_Nil2 linorder_not_less)
  have nthj: "dropWhile py_islower rest \<noteq> [] \<Longrightarrow> data ! j = hd (dropWhile py_islower rest)"
    using drj jlt by (metis hd_drop_conv_nth)
  have lhs: "parse_cell data =
     (if length data \<le> i then
           Inr \<lparr>opcode = takeWhile py_isupper data, cycles = 0, addr_mode = ''AM::IMP''\<rparr>
         else if py_isdigit (data ! i) then
           (case py_int_char (data ! i) of
              Inl e \<Rightarrow> Inl e
            | Inr n \<Rightarrow> Inr \<lparr>opcode = takeWhile py_isupper data, cycles = n, addr_mode = ''AM::IMP''\<rparr>)
         else
           (if j < length data then
                 (case py_int_char (data ! j) of
                    Inl e \<Rightarrow> Inl e
                  | Inr n \<Rightarrow> Inr \<lparr>opcode = takeWhile py_isupper data, cycles = n,
                       addr_mode = resolve (takeWhile py_islower rest)\<rparr>)
               else Inr \<lparr>opcode = takeWhile py_isupper data, cycles = 0,
                       addr_mode = resolve (takeWhile py_islower rest)\<rparr>))"
    unfolding parse_cell_def Let_def i_def [symmetric] j_def [symmetric] opc tok ..
  show ?thesis
  proof (cases rest)
    case Nil
    then show ?thesis
      unfolding lhs Let_def rest_def [symmetric] using ge by simp
  next
    case (Cons c cs)
    then have ne: "rest \<noteq> []" and hd: "data ! i = c" using nth by auto
    from ne have nge: "\<not> length data \<le> i" using ge by simp
    show ?thesis
    proof (cases "dropWhile py_islower rest")
      case Nil
      then have "\<not> j < length data" using jlt by simp
      then show ?thesis
        unfolding lhs Let_def rest_def [symmetric] Nil
        by (simp add: nge hd Cons)
    next
      case Cons2: (Cons r rs)
      then have "data ! j = r" and "j < length data" using nthj jlt by simp_all
      then show ?thesis
        unfolding lhs Let_def rest_def [symmetric] Cons2
        by (simp add: nge hd Cons)
    qed
  qed
qed

lemma resolve_Nil: "resolve [] = ''AM::IMP''"
  by (simp add: resolve_def)

lemma resolve_known:
  "resolve ''abs'' = ''AM::ABS''" "resolve ''abx'' = ''AM::ABX''" "resolve ''aby'' = ''AM::ABY''"
  "resolve ''imm'' = ''AM::IMM''" "resolve ''ind'' = ''AM::IND''" "resolve ''izx'' = ''AM::INX''"
  "resolve ''izy'' = ''AM::INY''" "resolve ''zp'' = ''AM::ZPG''" "resolve ''zpx'' = ''AM::ZPX''"
  "resolve ''zpy'' = ''AM::ZPY''" "resolve ''rel'' = ''AM::REL''"
  by (simp_all add: resolve_def)

lemma abbreviation_lower: "(A, T) \<in> set abbreviations \<Longrightarrow> \<forall>c\<in>set A. py_islower c"
  unfolding abbreviations_def by (auto simp: py_islower_def)

lemma abbreviation_resolve: "(A, T) \<in> set abbreviations \<Longrightarrow> resolve A = am_text T"
  unfolding abbreviations_def by (auto simp: resolve_known)

lemma resolve_unknown:
  "A \<noteq> [] \<Longrightarrow> A \<notin> set (map fst abbreviations) \<Longrightarrow> resolve A = A"
  by (simp add: abbreviations_def resolve_def)

text \<open>
  The same for a text that is given in three pieces: an upper-case run \<open>M\<close>, a
  lower-case run \<open>A\<close> and a rest \<open>R\<close> that continues neither.
\<close>

lemma parse_cell_shape:
  assumes M: "\<forall>c\<in>set M. py_isupper c"
    and A: "\<forall>c\<in>set A. py_islower c"
    and R: "R = [] \<or> (\<not> py_islower (hd R) \<and> (A = [] \<longrightarrow> \<not> py_isupper (hd R)))"
  shows "parse_cell (M @ A @ R) =
     (case R of
        [] \<Rightarrow> Inr \<lparr>opcode = M, cycles = 0, addr_mode = resolve A\<rparr>
      | c # _ \<Rightarrow>
          (if is_decimal c then Inr \<lparr>opcode = M, cycles = digit_val c, addr_mode = resolve A\<rparr>
           else Inl ValueError))"
proof -
  have "A @ R = [] \<or> \<not> py_isupper (hd (A @ R))"
    using A R by (cases A) (auto dest: upper_not_lower)
  then have up: "takeWhile py_isupper (M @ A @ R) = M"
    and rest: "dropWhile py_isupper (M @ A @ R) = A @ R"
    using run_append [OF M, of "A @ R"] by simp_all
  have "R = [] \<or> \<not> py_islower (hd R)" using R by blast
  then have lo: "takeWhile py_islower (A @ R) = A"
    and tail: "dropWhile py_islower (A @ R) = R"
    using run_append [OF A, of R] by simp_all
  show ?thesis
  proof (cases A)
    case Nil
    show ?thesis
    proof (cases R)
      case Nil
      with \<open>A = []\<close> show ?thesis
        unfolding parse_cell_runs Let_def up rest lo tail by (simp add: resolve_Nil)
    next
      case (Cons r rs)
      with \<open>A = []\<close> lo tail show ?thesis
        unfolding parse_cell_runs Let_def up rest
        by (auto simp: resolve_Nil py_int_char_cases dest: decimal_isdigit)
    qed
  next
    case (Cons a as)
    then have "\<not> py_isdigit (hd (A @ R))" and "A @ R \<noteq> []"
      using A by (auto dest: lower_not_digit)
    then show ?thesis
      unfolding parse_cell_runs Let_def up rest lo tail
      by (cases "A @ R") (auto simp: py_int_char_cases split: list.splits)
  qed
qed

lemma parse_cell_mode:
  assumes "parse_cell data = Inr d"
  shows "addr_mode d = resolve (takeWhile py_islower (dropWhile py_isupper data))"
proof (cases "dropWhile py_isupper data")
  case Nil
  show ?thesis
    using assms unfolding parse_cell_runs Let_def Nil by (auto simp: resolve_Nil)
next
  case (Cons c cs)
  show ?thesis
  proof (cases "py_isdigit c")
    case True
    then have "\<not> py_islower c" by (auto dest: lower_not_digit)
    with True assms show ?thesis
      unfolding parse_cell_runs Let_def Cons
      by (auto simp: resolve_Nil split: sum.splits)
  next
    case False
    with assms show ?thesis
      unfolding parse_cell_runs Let_def Cons
      by (auto split: list.splits sum.splits if_splits)
  qed
qed

lemma parse_cell_opcode:
  assumes "parse_cell data = Inr d"
  shows "opcode d = takeWhile py_isupper data"
proof (cases "dropWhile py_isupper data")
  case Nil
  show ?thesis
    using assms unfolding parse_cell_runs Let_def Nil by auto
next
  case (Cons c cs)
  show ?thesis
    using assms unfolding parse_cell_runs Let_def Cons
    by (auto split: list.splits sum.splits if_splits)
qed

section \<open>The addressing-mode resolver\<close>

text \<open>
  C8. The resolver sends each of the eleven abbreviations to the name of its mode as
  tabulated, and the empty token to the name of the implied mode; the twelve names are
  pairwise different.
\<close>

theorem resolver_table:
  "resolve ''abs'' = am_text Absolute \<and> resolve ''abx'' = am_text AbsoluteX
   \<and> resolve ''aby'' = am_text AbsoluteY \<and> resolve ''imm'' = am_text Immediate
   \<and> resolve ''ind'' = am_text Indirect \<and> resolve ''izx'' = am_text IndexedIndirect
   \<and> resolve ''izy'' = am_text IndirectIndexed \<and> resolve ''zp'' = am_text ZeroPage
   \<and> resolve ''zpx'' = am_text ZeroPageX \<and> resolve ''zpy'' = am_text ZeroPageY
   \<and> resolve ''rel'' = am_text Relative \<and> resolve '''' = am_text Implied
   \<and> distinct (map resolve
        [''abs'', ''abx'', ''aby'', ''imm'', ''ind'', ''izx'', ''izy'', ''zp'', ''zpx'',
         ''zpy'', ''rel'', ''''])"
  by (simp add: resolve_known resolve_Nil)

section \<open>Cycle counts\<close>

text \<open>
  C10. Whenever a cell parses without an exception, the cycle count of its descriptor
  is the value of one decimal digit, an integer from 0 to 9: the parser converts a
  single character and never more.
\<close>

theorem cycles_single_digit:
  "parse_cell data = Inr d \<Longrightarrow> 0 \<le> cycles d \<and> cycles d \<le> 9"
  unfolding parse_cell_def Let_def
  by (auto split: if_splits sum.splits dest: py_int_char_range)

theorem cycles_single_digit_witness:
  "parse_cell ''ORAizx6'' = Inr \<lparr>opcode = ''ORA'', cycles = 6, addr_mode = ''AM::INX''\<rparr>
   \<and> 0 \<le> cycles \<lparr>opcode = ''ORA'', cycles = 6, addr_mode = ''AM::INX''\<rparr>
   \<and> cycles \<lparr>opcode = ''ORA'', cycles = 6, addr_mode = ''AM::INX''\<rparr> \<le> 9"
proof -
  have h: "parse_cell ''ORAizx6'' = Inr \<lparr>opcode = ''ORA'', cycles = 6, addr_mode = ''AM::INX''\<rparr>"
    by code_simp
  from cycles_single_digit [OF h] h show ?thesis by blast
qed

text \<open>
  C2, as the code has it. For a non-empty upper-case mnemonic \<open>M\<close>, one of the eleven
  abbreviations \<open>A\<close> with mode \<open>T\<close> and a non-empty sequence \<open>D\<close> of decimal digits,
  the text \<open>M @ A @ D\<close> parses to the mnemonic \<open>M\<close>, the name of \<open>T\<close> and the value of
  the first digit of \<open>D\<close>; that value is \<^verbatim>\<open>int(D)\<close> when \<open>D\<close> is a single digit.
\<close>

theorem abbreviation_first_digit:
  assumes "M \<noteq> []" and "\<forall>c\<in>set M. py_isupper c"
    and "(A, T) \<in> set abbreviations"
    and "D \<noteq> []" and "\<forall>c\<in>set D. is_decimal c"
  shows "parse_cell (M @ A @ D) =
           Inr \<lparr>opcode = M, cycles = digit_val (hd D), addr_mode = am_text T\<rparr>
         \<and> (length D = 1 \<longrightarrow> digit_val (hd D) = int_of_digits D)"
proof -
  have A: "\<forall>c\<in>set A. py_islower c"
    using assms(3) by (rule abbreviation_lower)
  have "is_decimal (hd D)" using assms(4,5) by (cases D) auto
  then have "D = [] \<or> (\<not> py_islower (hd D) \<and> (A = [] \<longrightarrow> \<not> py_isupper (hd D)))"
    by (auto dest: decimal_not_lower decimal_not_upper)
  from parse_cell_shape [OF assms(2) A this] \<open>is_decimal (hd D)\<close> assms(3,4)
  have "parse_cell (M @ A @ D) =
           Inr \<lparr>opcode = M, cycles = digit_val (hd D), addr_mode = am_text T\<rparr>"
    by (cases D) (auto simp: abbreviation_resolve)
  moreover have "length D = 1 \<longrightarrow> digit_val (hd D) = int_of_digits D"
    by (cases D) (auto simp: int_of_digits_def)
  ultimately show ?thesis by blast
qed

theorem abbreviation_first_digit_witness:
  "''ORA'' \<noteq> [] \<and> (''izx'', IndexedIndirect) \<in> set abbreviations \<and> ''6'' \<noteq> []
   \<and> parse_cell (''ORA'' @ ''izx'' @ ''6'') =
       Inr \<lparr>opcode = ''ORA'', cycles = 6, addr_mode = ''AM::INX''\<rparr>
   \<and> int_of_digits ''6'' = 6"
proof -
  have h1: "''ORA'' \<noteq> []" by simp
  have h2: "\<forall>c\<in>set ''ORA''. py_isupper c" by (simp add: py_isupper_def)
  have h3: "(''izx'', IndexedIndirect) \<in> set abbreviations" by (simp add: abbreviations_def)
  have h4: "''6'' \<noteq> []" by simp
  have h5: "\<forall>c\<in>set ''6''. is_decimal c" by (simp add: is_decimal_def)
  have "parse_cell (''ORA'' @ ''izx'' @ ''6'') =
       Inr \<lparr>opcode = ''ORA'', cycles = 6, addr_mode = ''AM::INX''\<rparr>
     \<and> int_of_digits ''6'' = 6"
    using abbreviation_first_digit [OF h1 h2 h3 h4 h5] by (simp add: digit_val_def)
  with h1 h2 h3 h4 h5 show ?thesis by blast
qed

text \<open>
  With two digits the count is the first digit, not the number that the two digits
  spell.
\<close>

theorem full_digit_sequence_counterexample:
  "parse_cell (''ORA'' @ ''izx'' @ ''12'') \<noteq>
     Inr \<lparr>opcode = ''ORA'', cycles = int_of_digits ''12'', addr_mode = am_text IndexedIndirect\<rparr>"
  by code_simp

text \<open>
  C5, as the code has it. For a non-empty upper-case mnemonic \<open>M\<close> followed at once by
  a non-empty sequence \<open>D\<close> of decimal digits, the text \<open>M @ D\<close> parses to the
  mnemonic \<open>M\<close>, the implied mode and the value of the first digit of \<open>D\<close>; that value
  is \<^verbatim>\<open>int(D)\<close> when \<open>D\<close> is a single digit.
\<close>

theorem bare_count_first_digit:
  assumes "M \<noteq> []" and "\<forall>c\<in>set M. py_isupper c"
    and "D \<noteq> []" and "\<forall>c\<in>set D. is_decimal c"
  shows "parse_cell (M @ D) =
           Inr \<lparr>opcode = M, cycles = digit_val (hd D), addr_mode = am_text Implied\<rparr>
         \<and> (length D = 1 \<longrightarrow> digit_val (hd D) = int_of_digits D)"
proof -
  have dec: "is_decimal (hd D)" using assms(3,4) by (cases D) auto
  then have R: "D = [] \<or> (\<not> py_islower (hd D) \<and> (([]::string) = [] \<longrightarrow> \<not> py_isupper (hd D)))"
    by (auto dest: decimal_not_lower decimal_not_upper)
  have A: "\<forall>c\<in>set ([]::string). py_islower c" by simp
  from parse_cell_shape [OF assms(2) A R] dec assms(3)
  have "parse_cell (M @ D) =
           Inr \<lparr>opcode = M, cycles = digit_val (hd D), addr_mode = am_text Implied\<rparr>"
    by (cases D) (auto simp: resolve_Nil)
  moreover have "length D = 1 \<longrightarrow> digit_val (hd D) = int_of_digits D"
    by (cases D) (auto simp: int_of_digits_def)
  ultimately show ?thesis by blast
qed

theorem bare_count_first_digit_witness:
  "''BRK'' \<noteq> [] \<and> ''7'' \<noteq> []
   \<and> parse_cell (''BRK'' @ ''7'') = Inr \<lparr>opcode = ''BRK'', cycles = 7, addr_mode = ''AM::IMP''\<rparr>
   \<and> int_of_digits ''7'' = 7"
proof -
  have h1: "''BRK'' \<noteq> []" by simp
  have h2: "\<forall>c\<in>set ''BRK''. py_isupper c" by (simp add: py_isupper_def)
  have h3: "''7'' \<noteq> []" by simp
  have h4: "\<forall>c\<in>set ''7''. is_decimal c" by (simp add: is_decimal_def)
  have "parse_cell (''BRK'' @ ''7'') = Inr \<lparr>opcode = ''BRK'', cycles = 7, addr_mode = ''AM::IMP''\<rparr>
     \<and> int_of_digits ''7'' = 7"
    using bare_count_first_digit [OF h1 h2 h3 h4] by (simp add: digit_val_def)
  with h1 h2 h3 h4 show ?thesis by blast
qed

text \<open>The same two digits after a bare mnemonic.\<close>

theorem bare_count_full_sequence_counterexample:
  "parse_cell (''BRK'' @ ''12'') \<noteq>
     Inr \<lparr>opcode = ''BRK'', cycles = int_of_digits ''12'', addr_mode = am_text Implied\<rparr>"
  by code_simp

text \<open>
  C7, as the code has it. Of the characters after the mnemonic and the token only the
  first is examined. If it is a decimal digit the descriptor is produced with that
  digit as the count, whatever follows it; if it is anything else the conversion
  raises \<^verbatim>\<open>ValueError\<close>.
\<close>

theorem first_suffix_character_decides:
  assumes "\<forall>c\<in>set M. py_isupper c" and "\<forall>c\<in>set A. py_islower c"
    and "\<not> py_islower c" and "A = [] \<longrightarrow> \<not> py_isupper c"
  shows "parse_cell (M @ A @ c # R) =
     (if is_decimal c then Inr \<lparr>opcode = M, cycles = digit_val c, addr_mode = resolve A\<rparr>
      else Inl ValueError)"
proof -
  have "c # R = [] \<or> (\<not> py_islower (hd (c # R)) \<and> (A = [] \<longrightarrow> \<not> py_isupper (hd (c # R))))"
    using assms(3,4) by simp
  from parse_cell_shape [OF assms(1,2) this] show ?thesis by simp
qed

theorem first_suffix_character_decides_witness:
  "\<not> py_islower (CHR ''4'') \<and> \<not> py_islower (CHR ''*'')
   \<and> parse_cell (''LDA'' @ ''abx'' @ CHR ''4'' # ''*'') =
        Inr \<lparr>opcode = ''LDA'', cycles = 4, addr_mode = ''AM::ABX''\<rparr>
   \<and> parse_cell (''LDA'' @ ''abx'' @ CHR ''*'' # ''4'') = Inl ValueError"
proof -
  have h1: "\<forall>c\<in>set ''LDA''. py_isupper c" by (simp add: py_isupper_def)
  have h2: "\<forall>c\<in>set ''abx''. py_islower c" by (simp add: py_islower_def)
  have h3: "\<not> py_islower (CHR ''4'')" by (simp add: py_islower_def)
  have h4: "''abx'' = [] \<longrightarrow> \<not> py_isupper (CHR ''4'')" by simp
  have h5: "\<not> py_islower (CHR ''*'')" by (simp add: py_islower_def)
  have h6: "''abx'' = [] \<longrightarrow> \<not> py_isupper (CHR ''*'')" by simp
  have a: "parse_cell (''LDA'' @ ''abx'' @ CHR ''4'' # ''*'') =
        Inr \<lparr>opcode = ''LDA'', cycles = 4, addr_mode = ''AM::ABX''\<rparr>"
    using first_suffix_character_decides [OF h1 h2 h3 h4, of "''*''"]
    by (simp add: is_decimal_def digit_val_def resolve_known)
  have b: "parse_cell (''LDA'' @ ''abx'' @ CHR ''*'' # ''4'') = Inl ValueError"
    using first_suffix_character_decides [OF h1 h2 h5 h6, of "''4''"]
    by (simp add: is_decimal_def)
  from h3 h5 a b show ?thesis by blast
qed

text \<open>
  A cell of the reference table with a marker after the count: the marker is not a
  digit, and the cell parses.
\<close>

theorem trailing_characters_counterexample:
  "\<not> is_decimal (CHR ''*'') \<and>
   parse_cell ''LDAabx4*'' = Inr \<lparr>opcode = ''LDA'', cycles = 4, addr_mode = ''AM::ABX''\<rparr>"
  by code_simp

section \<open>Tokens the resolver does not know\<close>

text \<open>
  C1, as the code has it. An unknown token raises nothing. For upper-case \<open>M\<close>, a
  non-empty lower-case token \<open>A\<close> that is none of the eleven abbreviations, and a rest
  \<open>R\<close> that does not continue the token, the text \<open>M @ A @ R\<close> parses to a descriptor
  whose mode text is \<open>A\<close> itself when \<open>R\<close> is empty or starts with a decimal digit; the
  only failure is the \<^verbatim>\<open>ValueError\<close> of the cycle conversion when \<open>R\<close> starts with
  another character.
\<close>

theorem unknown_mode_passes:
  assumes "\<forall>c\<in>set M. py_isupper c"
    and "A \<noteq> []" and "\<forall>c\<in>set A. py_islower c"
    and "A \<notin> set (map fst abbreviations)"
    and "R = [] \<or> \<not> py_islower (hd R)"
  shows "parse_cell (M @ A @ R) =
     (case R of
        [] \<Rightarrow> Inr \<lparr>opcode = M, cycles = 0, addr_mode = A\<rparr>
      | c # _ \<Rightarrow>
          (if is_decimal c then Inr \<lparr>opcode = M, cycles = digit_val c, addr_mode = A\<rparr>
           else Inl ValueError))"
proof -
  have "resolve A = A"
    using assms(2,4) by (rule resolve_unknown)
  moreover have "R = [] \<or> (\<not> py_islower (hd R) \<and> (A = [] \<longrightarrow> \<not> py_isupper (hd R)))"
    using assms(2,5) by blast
  ultimately show ?thesis
    using parse_cell_shape [OF assms(1) assms(3), of R] by (cases R) simp_all
qed

theorem unknown_mode_passes_witness:
  "''xyz'' \<noteq> [] \<and> ''xyz'' \<notin> set (map fst abbreviations) \<and> \<not> py_islower (hd ''3'')
   \<and> parse_cell (''FOO'' @ ''xyz'' @ ''3'') =
       Inr \<lparr>opcode = ''FOO'', cycles = 3, addr_mode = ''xyz''\<rparr>"
proof -
  have h1: "\<forall>c\<in>set ''FOO''. py_isupper c" by (simp add: py_isupper_def)
  have h2: "''xyz'' \<noteq> []" by simp
  have h3: "\<forall>c\<in>set ''xyz''. py_islower c" by (simp add: py_islower_def)
  have h4: "''xyz'' \<notin> set (map fst abbreviations)" by (simp add: abbreviations_def)
  have h5: "''3'' = [] \<or> \<not> py_islower (hd ''3'')" by (simp add: py_islower_def)
  have "parse_cell (''FOO'' @ ''xyz'' @ ''3'') =
       Inr \<lparr>opcode = ''FOO'', cycles = 3, addr_mode = ''xyz''\<rparr>"
    using unknown_mode_passes [OF h1 h2 h3 h4 h5] by (simp add: is_decimal_def digit_val_def)
  moreover have "\<not> py_islower (hd ''3'')" by (simp add: py_islower_def)
  ultimately show ?thesis using h2 h4 by blast
qed

text \<open>The example of the specification: no failure, and the token is passed on.\<close>

theorem unknown_mode_no_failure_counterexample:
  "''xyz'' \<notin> set (map fst abbreviations) \<and>
   parse_cell ''FOOxyz3'' = Inr \<lparr>opcode = ''FOO'', cycles = 3, addr_mode = ''xyz''\<rparr>"
  by code_simp

text \<open>
  C4, as the code has it. An unknown token is not treated as an absent one: whenever a
  cell parses and its lower-case token is non-empty and none of the eleven
  abbreviations, the mode text of the descriptor is the token itself, which is never
  the name of the implied mode.
\<close>

theorem unknown_token_kept:
  assumes "parse_cell data = Inr d"
    and "takeWhile py_islower (dropWhile py_isupper data) \<noteq> []"
    and "takeWhile py_islower (dropWhile py_isupper data) \<notin> set (map fst abbreviations)"
  shows "addr_mode d = takeWhile py_islower (dropWhile py_isupper data)
         \<and> addr_mode d \<noteq> am_text Implied"
proof -
  let ?tok = "takeWhile py_islower (dropWhile py_isupper data)"
  have eq: "addr_mode d = ?tok"
    using parse_cell_mode [OF assms(1)] resolve_unknown [OF assms(2,3)] by simp
  have "py_islower (hd ?tok)"
    using assms(2) by (metis hd_in_set set_takeWhileD)
  moreover have "\<not> py_islower (hd (am_text Implied))"
    by (simp add: py_islower_def)
  ultimately have "?tok \<noteq> am_text Implied" by metis
  with eq show ?thesis by simp
qed

theorem unknown_token_kept_witness:
  "parse_cell ''LDAzpz4'' = Inr \<lparr>opcode = ''LDA'', cycles = 4, addr_mode = ''zpz''\<rparr>
   \<and> takeWhile py_islower (dropWhile py_isupper ''LDAzpz4'') = ''zpz''
   \<and> ''zpz'' \<noteq> [] \<and> ''zpz'' \<notin> set (map fst abbreviations)
   \<and> addr_mode \<lparr>opcode = ''LDA'', cycles = 4, addr_mode = ''zpz''\<rparr> \<noteq> am_text Implied"
proof -
  have h1: "parse_cell ''LDAzpz4'' = Inr \<lparr>opcode = ''LDA'', cycles = 4, addr_mode = ''zpz''\<rparr>"
    by code_simp
  have t: "takeWhile py_islower (dropWhile py_isupper ''LDAzpz4'') = ''zpz''"
    by code_simp
  have h2: "takeWhile py_islower (dropWhile py_isupper ''LDAzpz4'') \<noteq> []"
    unfolding t by simp
  have h3: "takeWhile py_islower (dropWhile py_isupper ''LDAzpz4'') \<notin> set (map fst abbreviations)"
    unfolding t by (simp add: abbreviations_def)
  from unknown_token_kept [OF h1 h2 h3] have "addr_mode \<lparr>opcode = ''LDA'', cycles = 4, addr_mode = ''zpz''\<rparr> \<noteq> am_text Implied" by blast
  with h1 t show ?thesis by (simp add: abbreviations_def)
qed

text \<open>A misspelt zero-page token stays in the descriptor as it was written.\<close>

theorem unknown_token_not_implied_counterexample:
  "''zpz'' \<notin> set (map fst abbreviations) \<and>
   parse_cell ''LDAzpz4'' = Inr \<lparr>opcode = ''LDA'', cycles = 4, addr_mode = ''zpz''\<rparr> \<and>
   ''zpz'' \<noteq> am_text Implied"
  by code_simp

section \<open>Cells without a mnemonic\<close>

text \<open>
  C6, as the code has it. A text that is empty or does not begin with an upper-case
  letter is not rejected as malformed. Parsing goes on with the empty mnemonic: the
  result is a descriptor whose mnemonic is empty when the leading lower-case run is
  followed by nothing or by a decimal digit, and the \<^verbatim>\<open>ValueError\<close> of the cycle
  conversion otherwise.
\<close>

theorem no_mnemonic_parse:
  assumes "data = [] \<or> \<not> py_isupper (hd data)"
  shows "parse_cell data =
     (case dropWhile py_islower data of
        [] \<Rightarrow> Inr \<lparr>opcode = [], cycles = 0, addr_mode = resolve (takeWhile py_islower data)\<rparr>
      | c # _ \<Rightarrow>
          (if is_decimal c
           then Inr \<lparr>opcode = [], cycles = digit_val c,
                      addr_mode = resolve (takeWhile py_islower data)\<rparr>
           else Inl ValueError))"
proof -
  let ?A = "takeWhile py_islower data" and ?R = "dropWhile py_islower data"
  have M: "\<forall>c\<in>set ([]::string). py_isupper c" by simp
  have A: "\<forall>c\<in>set ?A. py_islower c" by (auto dest: set_takeWhileD)
  have nl: "?R = [] \<or> \<not> py_islower (hd ?R)"
    by (metis hd_dropWhile)
  have "?A = [] \<longrightarrow> ?R = data" by (cases data) (auto split: if_splits)
  with assms nl have R: "?R = [] \<or> (\<not> py_islower (hd ?R) \<and> (?A = [] \<longrightarrow> \<not> py_isupper (hd ?R)))"
    by auto
  from parse_cell_shape [OF M A R] show ?thesis by simp
qed

theorem no_mnemonic_parse_witness:
  "\<not> py_isupper (hd ''abs3'')
   \<and> parse_cell ''abs3'' = Inr \<lparr>opcode = [], cycles = 3, addr_mode = ''AM::ABS''\<rparr>"
proof -
  have h: "''abs3'' = [] \<or> \<not> py_isupper (hd ''abs3'')" by (simp add: py_isupper_def)
  have "parse_cell ''abs3'' = Inr \<lparr>opcode = [], cycles = 3, addr_mode = ''AM::ABS''\<rparr>"
    using no_mnemonic_parse [OF h]
    by (simp add: py_islower_def is_decimal_def digit_val_def resolve_known)
  moreover have "\<not> py_isupper (hd ''abs3'')" by (simp add: py_isupper_def)
  ultimately show ?thesis by blast
qed

text \<open>The empty text and a text that starts with an abbreviation both parse.\<close>

theorem empty_mnemonic_counterexample:
  "parse_cell '''' = Inr \<lparr>opcode = '''', cycles = 0, addr_mode = ''AM::IMP''\<rparr>
   \<and> parse_cell ''abs3'' = Inr \<lparr>opcode = '''', cycles = 3, addr_mode = ''AM::ABS''\<rparr>"
  by code_simp

section \<open>Flattening and the loops over cells and rows\<close>

text \<open>Splitting at white space and joining again removes the white space.\<close>

lemma concat_split_acc:
  "concat (split_acc s w) = w @ filter (\<lambda>c. \<not> py_isspace c) s"
  by (induction s arbitrary: w) auto

lemma flatten_filter: "flatten text = filter (\<lambda>c. \<not> py_isspace c) text"
  by (simp add: flatten_def py_split_def concat_split_acc)

text \<open>The only exception a cell can raise is the \<^verbatim>\<open>ValueError\<close> of the conversion.\<close>

lemma parse_cell_error: "parse_cell data = Inl e \<Longrightarrow> e = ValueError"
  unfolding parse_cell_runs Let_def
  by (auto simp: py_int_char_cases split: list.splits if_splits)

lemma cell_loop_Inr_iff:
  "cell_loop cells out = Inr res \<longleftrightarrow>
     (\<exists>ds. list_all2 (\<lambda>cell d. parse_cell (flatten cell) = Inr d) cells ds
           \<and> res = out @ map fmt_instr ds)"
proof (induction cells arbitrary: out)
  case Nil
  show ?case by auto
next
  case (Cons cell cells)
  show ?case
  proof (cases "parse_cell (flatten cell)")
    case (Inl e)
    then show ?thesis by (simp add: list_all2_Cons1)
  next
    case (Inr d)
    then show ?thesis by (auto simp: Cons.IH list_all2_Cons1)
  qed
qed

lemma cell_loop_Inl: "cell_loop cells out = Inl e \<Longrightarrow> e = ValueError"
  by (induction cells arbitrary: out) (auto split: sum.splits dest: parse_cell_error)

lemma emit_row_Inr_iff:
  "emit_row cells = Inr line \<longleftrightarrow>
     (\<exists>ds. list_all2 (\<lambda>cell d. parse_cell (flatten cell) = Inr d) (drop 1 cells) ds
           \<and> line = ''['' @ concat (map fmt_instr ds) @ ''],'')"
proof -
  have "emit_row cells = Inr line \<longleftrightarrow>
     (\<exists>res. cell_loop (drop 1 cells) [''[''] = Inr res \<and> line = concat (res @ ['']'']) @ '','')"
    unfolding emit_row_def by (auto split: sum.splits)
  then show ?thesis
    unfolding cell_loop_Inr_iff by auto
qed

lemma emit_row_Inl: "emit_row cells = Inl e \<Longrightarrow> e = ValueError"
  unfolding emit_row_def by (auto split: sum.splits dest: cell_loop_Inl)

lemma emit_row_ok_iff:
  "(\<exists>line. emit_row cells = Inr line) \<longleftrightarrow>
     (\<forall>cell\<in>set (drop 1 cells). \<exists>d. parse_cell (flatten cell) = Inr d)"
proof -
  have "(\<exists>ds. list_all2 (\<lambda>cell d. parse_cell (flatten cell) = Inr d) xs ds) \<longleftrightarrow>
     (\<forall>cell\<in>set xs. \<exists>d. parse_cell (flatten cell) = Inr d)" for xs
    by (induction xs) (auto simp: list_all2_Cons1)
  then show ?thesis unfolding emit_row_Inr_iff by auto
qed

lemma row_loop_None_iff:
  "row_loop rows ns printed = (out, None) \<longleftrightarrow>
     (\<exists>ls. list_all2 (\<lambda>n line. n < length rows \<and> emit_row (rows ! n) = Inr line) ns ls
           \<and> out = printed @ ls)"
proof (induction ns arbitrary: printed)
  case Nil
  show ?case by auto
next
  case (Cons n ns)
  show ?case
  proof (cases "n < length rows")
    case False
    then show ?thesis by (simp add: list_all2_Cons1)
  next
    case True
    show ?thesis
    proof (cases "emit_row (rows ! n)")
      case (Inl e)
      with True show ?thesis by (simp add: list_all2_Cons1)
    next
      case (Inr line)
      with True show ?thesis by (auto simp: Cons.IH list_all2_Cons1)
    qed
  qed
qed

lemma row_loop_prefix: "\<exists>ls. fst (row_loop rows ns printed) = printed @ ls"
proof (induction ns arbitrary: printed)
  case Nil
  show ?case by simp
next
  case (Cons n ns)
  show ?case
  proof (cases "n < length rows")
    case False
    then show ?thesis by simp
  next
    case True
    show ?thesis
    proof (cases "emit_row (rows ! n)")
      case (Inl e)
      with True show ?thesis by simp
    next
      case (Inr line)
      from Cons.IH [of "printed @ [line]"] obtain ls
        where "fst (row_loop rows ns (printed @ [line])) = (printed @ [line]) @ ls" by blast
      with True Inr show ?thesis by simp
    qed
  qed
qed

lemma row_loop_IndexError:
  "row_loop rows ns printed = (out, Some IndexError) \<Longrightarrow> \<exists>n\<in>set ns. length rows \<le> n"
proof (induction ns arbitrary: printed)
  case Nil
  then show ?case by simp
next
  case (Cons n ns)
  show ?case
  proof (cases "n < length rows")
    case False
    then show ?thesis by simp
  next
    case True
    show ?thesis
    proof (cases "emit_row (rows ! n)")
      case (Inl e)
      with True Cons.prems show ?thesis by (auto dest: emit_row_Inl)
    next
      case (Inr line)
      with True Cons.prems have "row_loop rows ns (printed @ [line]) = (out, Some IndexError)"
        by simp
      from Cons.IH [OF this] show ?thesis by simp
    qed
  qed
qed

lemma row_loop_ok_iff:
  "snd (row_loop rows ns printed) = None \<longleftrightarrow>
     (\<forall>n\<in>set ns. n < length rows \<and> (\<exists>line. emit_row (rows ! n) = Inr line))"
proof -
  have "(\<exists>ls. list_all2 (\<lambda>n line. n < length rows \<and> emit_row (rows ! n) = Inr line) xs ls) \<longleftrightarrow>
     (\<forall>n\<in>set xs. n < length rows \<and> (\<exists>line. emit_row (rows ! n) = Inr line))" for xs
    by (induction xs) (auto simp: list_all2_Cons1)
  moreover have "snd (row_loop rows ns printed) = None \<longleftrightarrow>
     (\<exists>out. row_loop rows ns printed = (out, None))"
    by (cases "row_loop rows ns printed") auto
  ultimately show ?thesis unfolding row_loop_None_iff by auto
qed

lemma main_None_iff:
  "main rows = (printed, None) \<longleftrightarrow>
     (\<exists>ls. list_all2 (\<lambda>n line. n < length rows \<and> emit_row (rows ! n) = Inr line) [1..<17] ls
           \<and> printed = header # ls @ [footer])"
proof -
  have "main rows = (printed, None) \<longleftrightarrow>
     (\<exists>out. row_loop rows [1..<17] [header] = (out, None) \<and> printed = out @ [footer])"
    unfolding main_def by (auto split: prod.splits option.splits)
  then show ?thesis unfolding row_loop_None_iff by auto
qed

lemma main_snd: "snd (main rows) = snd (row_loop rows [1..<17] [header])"
  unfolding main_def by (auto split: prod.splits option.splits)

lemma main_header: "take 1 (fst (main rows)) = [header]"
proof -
  obtain ls where "fst (row_loop rows [1..<17] [header]) = [header] @ ls"
    using row_loop_prefix by blast
  then show ?thesis
    unfolding main_def by (auto split: prod.splits option.splits)
qed

section \<open>The shape of the input\<close>

text \<open>
  C3, as the code has it. Nothing checks the shape. A run ends without an exception
  exactly when at least 17 rows are supplied and every cell after the first of rows 1
  to 16 parses, whatever the number of cells in a row and however many rows follow;
  \<^verbatim>\<open>IndexError\<close> is raised only when fewer than 17 rows are supplied; and the header line
  is printed in every run, so a run that fails has already produced part of the output.
\<close>

theorem run_completes_iff:
  "(snd (main rows) = None \<longleftrightarrow>
      17 \<le> length rows
      \<and> (\<forall>r\<in>{1..<17}. \<forall>cell\<in>set (drop 1 (rows ! r)). \<exists>d. parse_cell (flatten cell) = Inr d))
   \<and> (snd (main rows) = Some IndexError \<longrightarrow> length rows < 17)
   \<and> take 1 (fst (main rows)) = [header]"
proof -
  have "(\<forall>n\<in>{1..<17::nat}. n < length rows) \<longleftrightarrow> 17 \<le> length rows"
  proof
    assume "\<forall>n\<in>{1..<17::nat}. n < length rows"
    then have "(16::nat) < length rows" by simp
    then show "17 \<le> length rows" by simp
  next
    assume "17 \<le> length rows"
    then show "\<forall>n\<in>{1..<17::nat}. n < length rows" by auto
  qed
  then have a: "snd (main rows) = None \<longleftrightarrow>
      17 \<le> length rows
      \<and> (\<forall>r\<in>{1..<17}. \<forall>cell\<in>set (drop 1 (rows ! r)). \<exists>d. parse_cell (flatten cell) = Inr d)"
    unfolding main_snd row_loop_ok_iff emit_row_ok_iff by auto
  have b: "snd (main rows) = Some IndexError \<longrightarrow> length rows < 17"
  proof
    assume "snd (main rows) = Some IndexError"
    then have "row_loop rows [1..<17] [header] = (fst (row_loop rows [1..<17] [header]), Some IndexError)"
      unfolding main_snd by (metis prod.collapse)
    from row_loop_IndexError [OF this] show "length rows < 17" by auto
  qed
  from a b main_header show ?thesis by blast
qed

theorem run_completes_iff_witness:
  "17 \<le> length (replicate 18 [''0'', ''NOP2'', ''BRK7''])
   \<and> snd (main (replicate 18 [''0'', ''NOP2'', ''BRK7''])) = None
   \<and> snd (main (replicate 3 [''0'', ''NOP2''])) = Some IndexError
   \<and> length (replicate 3 [''0'', ''NOP2'']) < 17"
proof -
  have p1: "parse_cell (flatten ''NOP2'') = Inr \<lparr>opcode = ''NOP'', cycles = 2, addr_mode = ''AM::IMP''\<rparr>"
    by code_simp
  have p2: "parse_cell (flatten ''BRK7'') = Inr \<lparr>opcode = ''BRK'', cycles = 7, addr_mode = ''AM::IMP''\<rparr>"
    by code_simp
  have h1: "17 \<le> length (replicate 18 [''0'', ''NOP2'', ''BRK7''])" by simp
  have h2: "\<forall>r\<in>{1..<17}. \<forall>cell\<in>set (drop 1 (replicate 18 [''0'', ''NOP2'', ''BRK7''] ! r)).
          \<exists>d. parse_cell (flatten cell) = Inr d"
    using p1 p2 by auto
  have h3: "snd (main (replicate 3 [''0'', ''NOP2''])) = Some IndexError" by code_simp
  from run_completes_iff [of "replicate 18 [''0'', ''NOP2'', ''BRK7'']"] h1 h2
  have a: "snd (main (replicate 18 [''0'', ''NOP2'', ''BRK7''])) = None" by blast
  from run_completes_iff [of "replicate 3 [''0'', ''NOP2'']"] h3
  have b: "length (replicate 3 [''0'', ''NOP2'']) < 17" by blast
  from h1 a h3 b show ?thesis by blast
qed

text \<open>
  Seventeen rows of 15 consumed cells each are emitted in full without any failure, and
  with 15 consumed rows the header and 15 row lines are printed before \<^verbatim>\<open>IndexError\<close>.
\<close>

theorem shape_not_enforced_counterexample:
  "main (replicate 17 (''0'' # replicate 15 ''NOP2'')) =
     (header
      # replicate 16 (''['' @ concat (replicate 15 ''I::new(Op::NOP,2,AM::IMP),'') @ ''],'')
      @ [footer], None)
   \<and> main (replicate 16 (''0'' # replicate 16 ''NOP2'')) =
     (header
      # replicate 15 (''['' @ concat (replicate 16 ''I::new(Op::NOP,2,AM::IMP),'') @ ''],''),
      Some IndexError)"
  by code_simp

section \<open>Order of the output\<close>

text \<open>
  C9, as the code has it. When a run ends without an exception, the output is the
  header, 16 row lines and the footer; the line at table row \<open>r\<close> (\<open>r < 16\<close>) lists, in
  source order, the descriptors of all cells of source row \<open>r + 1\<close> after cell 0, the
  descriptor at column \<open>c\<close> being the one of cell \<open>c + 1\<close>. The number of descriptors in
  a line is the number of cells of the row less one, not always 16.
\<close>

theorem output_positions:
  assumes "main rows = (printed, None)" and "r < 16"
  shows "r + 1 < length rows \<and> length printed = 18
         \<and> printed ! 0 = header \<and> printed ! 17 = footer
         \<and> (\<exists>ds. length ds = length (rows ! (r + 1)) - 1
               \<and> (\<forall>c<length ds. parse_cell (flatten (rows ! (r + 1) ! (c + 1))) = Inr (ds ! c))
               \<and> printed ! (r + 1) = ''['' @ concat (map fmt_instr ds) @ ''],'')"
proof -
  from assms(1) obtain ls
    where ls: "list_all2 (\<lambda>n line. n < length rows \<and> emit_row (rows ! n) = Inr line) [1..<17] ls"
      and printed: "printed = header # ls @ [footer]"
    unfolding main_None_iff by blast
  from ls have len: "length ls = 16"
    by (auto dest: list_all2_lengthD)
  have "[1..<17] ! r = r + 1" using assms(2) by simp
  with list_all2_nthD [OF ls, of r] assms(2)
  have row: "r + 1 < length rows" and line: "emit_row (rows ! (r + 1)) = Inr (ls ! r)"
    by simp_all
  from line obtain ds
    where ds: "list_all2 (\<lambda>cell d. parse_cell (flatten cell) = Inr d) (drop 1 (rows ! (r + 1))) ds"
      and shown: "ls ! r = ''['' @ concat (map fmt_instr ds) @ ''],''"
    unfolding emit_row_Inr_iff by blast
  from ds have dlen: "length ds = length (rows ! (r + 1)) - 1"
    by (auto dest: list_all2_lengthD)
  have cells: "\<forall>c<length ds. parse_cell (flatten (rows ! (r + 1) ! (c + 1))) = Inr (ds ! c)"
  proof (intro allI impI)
    fix c assume c: "c < length ds"
    then have "c < length (drop 1 (rows ! (r + 1)))" using dlen by simp
    from list_all2_nthD [OF ds this]
    have "parse_cell (flatten (drop 1 (rows ! (r + 1)) ! c)) = Inr (ds ! c)" .
    moreover have "drop 1 (rows ! (r + 1)) ! c = rows ! (r + 1) ! (c + 1)"
      using c dlen by simp
    ultimately show "parse_cell (flatten (rows ! (r + 1) ! (c + 1))) = Inr (ds ! c)" by simp
  qed
  have p1: "length printed = 18" using printed len by simp
  have p2: "printed ! 0 = header" using printed by simp
  have p3: "printed ! 17 = footer" using printed len by (simp add: nth_append)
  have p4: "printed ! (r + 1) = ''['' @ concat (map fmt_instr ds) @ ''],''"
    using printed len assms(2) shown by (simp add: nth_append)
  from row p1 p2 p3 dlen cells p4 show ?thesis by blast
qed

theorem output_positions_witness:
  "main ([''h''] # replicate 16 [''0'', ''NOP2'', ''JMPind'']) =
     (header # replicate 16 ''[I::new(Op::NOP,2,AM::IMP),I::new(Op::JMP,0,AM::IND),],''
      @ [footer], None)
   \<and> (3::nat) < 16
   \<and> (\<exists>ds. length ds = length (([''h''] # replicate 16 [''0'', ''NOP2'', ''JMPind'']) ! (3 + 1)) - 1
         \<and> (\<forall>c<length ds.
               parse_cell (flatten (([''h''] # replicate 16 [''0'', ''NOP2'', ''JMPind''])
                   ! (3 + 1) ! (c + 1))) = Inr (ds ! c))
         \<and> (header # replicate 16 ''[I::new(Op::NOP,2,AM::IMP),I::new(Op::JMP,0,AM::IND),],''
               @ [footer]) ! (3 + 1) = ''['' @ concat (map fmt_instr ds) @ ''],'')"
proof -
  have h1: "main ([''h''] # replicate 16 [''0'', ''NOP2'', ''JMPind'']) =
     (header # replicate 16 ''[I::new(Op::NOP,2,AM::IMP),I::new(Op::JMP,0,AM::IND),],''
      @ [footer], None)"
    by code_simp
  have h2: "(3::nat) < 16" by simp
  from output_positions [OF h1 h2] h1 h2 show ?thesis by blast
qed

text \<open>A row of 18 cells: the cell at index 17 is consumed too.\<close>

theorem extra_cells_consumed_counterexample:
  "main ([''h''] # (''0'' # replicate 16 ''NOP2'' @ [''BRK7'']) # replicate 15 [''0'', ''RTS6'']) =
     (header
      # (''['' @ concat (replicate 16 ''I::new(Op::NOP,2,AM::IMP),'')
           @ ''I::new(Op::BRK,7,AM::IMP),'' @ ''],'')
      # replicate 15 ''[I::new(Op::RTS,6,AM::IMP),],''
      @ [footer], None)"
  by code_simp

end
